theory Spec2Isabelle
  imports Main "HOL-Library.Sublist"
begin

section \<open>Python strings\<close>

text \<open>
  The ingestion script \<^verbatim>\<open>local_title.py\<close> works on Python 3 \<^verbatim>\<open>str\<close> values, which are
  sequences of Unicode code points: \<^verbatim>\<open>len\<close> counts code points, and \<^verbatim>\<open>\s\<close>,
  \<^verbatim>\<open>str.strip()\<close> and \<^verbatim>\<open>str.split()\<close> all use the same Unicode whitespace test.
  A string is therefore a list of code points; \<open>ustr\<close> embeds a literal.
\<close>

type_synonym pystr = "nat list"

definition ustr :: "string \<Rightarrow> pystr" where
  "ustr s = map of_char s"

text \<open>The code points for which Python's \<^verbatim>\<open>str.isspace\<close> (and \<^verbatim>\<open>\s\<close>) holds.\<close>

definition isspace :: "nat \<Rightarrow> bool" where
  "isspace c =
     ((9 \<le> c \<and> c \<le> 13) \<or> (28 \<le> c \<and> c \<le> 32) \<or> c = 133 \<or> c = 160 \<or> c = 5760 \<or>
      (8192 \<le> c \<and> c \<le> 8202) \<or> c = 8232 \<or> c = 8233 \<or> c = 8239 \<or> c = 8287 \<or>
      c = 12288)"

text \<open>\<^verbatim>\<open>s.strip()\<close>: drop the leading and the trailing whitespace.\<close>

definition lstrip :: "pystr \<Rightarrow> pystr" where
  "lstrip s = dropWhile isspace s"

definition rstrip :: "pystr \<Rightarrow> pystr" where
  "rstrip s = rev (dropWhile isspace (rev s))"

definition strip :: "pystr \<Rightarrow> pystr" where
  "strip s = rstrip (lstrip s)"

text \<open>
  \<^verbatim>\<open>s.split()\<close>: the maximal runs of non-whitespace characters, in order.
\<close>

function split_ws :: "pystr \<Rightarrow> pystr list" where
  "split_ws [] = []"
| "split_ws (c # cs) =
     (if isspace c then split_ws cs
      else (c # takeWhile (\<lambda>x. \<not> isspace x) cs) # split_ws (dropWhile (\<lambda>x. \<not> isspace x) cs))"
  by pat_completeness auto
termination
  by (relation "measure length") (auto simp: less_Suc_eq_le length_dropWhile_le)

text \<open>\<^verbatim>\<open>needle in hay\<close> on strings: \<open>needle\<close> occurs at some position of \<open>hay\<close>.\<close>

fun str_in :: "pystr \<Rightarrow> pystr \<Rightarrow> bool" where
  "str_in needle [] = (needle = [])"
| "str_in needle (c # cs) = (prefix needle (c # cs) \<or> str_in needle cs)"

text \<open>\<^verbatim>\<open>s.endswith(suf)\<close>.\<close>

definition endswith :: "pystr \<Rightarrow> pystr \<Rightarrow> bool" where
  "endswith s suf = suffix suf s"

section \<open>The helpers of \<^verbatim>\<open>local_title.py\<close>\<close>

text \<open>
  \<^verbatim>\<open>re.sub(r"<[^>]+>", " ", s)\<close>. Scanning from the left, a match starts at a \<^verbatim>\<open><\<close>
  (code point 60) that is followed by at least one character other than \<^verbatim>\<open>>\<close> (62) and
  then by a \<^verbatim>\<open>>\<close>; the greedy class takes every character up to the next \<^verbatim>\<open>>\<close>. The
  match is replaced by one space (32) and the scan goes on after it.
\<close>

function re_sub_tags :: "pystr \<Rightarrow> pystr" where
  "re_sub_tags [] = []"
| "re_sub_tags (c # cs) =
     (if c = 60 \<and> takeWhile (\<lambda>x. x \<noteq> 62) cs \<noteq> [] \<and> dropWhile (\<lambda>x. x \<noteq> 62) cs \<noteq> []
      then 32 # re_sub_tags (tl (dropWhile (\<lambda>x. x \<noteq> 62) cs))
      else c # re_sub_tags cs)"
  by pat_completeness auto
termination
proof (relation "measure length")
  fix c :: nat and cs :: "nat list"
  have "length (tl (dropWhile (\<lambda>x. x \<noteq> 62) cs)) \<le> length cs"
    using length_dropWhile_le [of "\<lambda>x. x \<noteq> 62" cs] by simp
  then show "(tl (dropWhile (\<lambda>x. x \<noteq> 62) cs), c # cs) \<in> measure length"
    by simp
qed simp_all

text \<open>\<^verbatim>\<open>re.sub(r"\s+", " ", s)\<close>: every maximal whitespace run becomes one space.\<close>

function re_sub_ws :: "pystr \<Rightarrow> pystr" where
  "re_sub_ws [] = []"
| "re_sub_ws (c # cs) =
     (if isspace c then 32 # re_sub_ws (dropWhile isspace cs) else c # re_sub_ws cs)"
  by pat_completeness auto
termination
  by (relation "measure length") (auto simp: less_Suc_eq_le length_dropWhile_le)

definition clean_text :: "pystr \<Rightarrow> pystr" where
  "clean_text xml_content = strip (re_sub_ws (re_sub_tags xml_content))"

definition word_count :: "pystr \<Rightarrow> nat" where
  "word_count text = (if text = [] then 0 else length (split_ws text))"

section \<open>Parsed documents\<close>

text \<open>
  An \<^verbatim>\<open>xml.etree.ElementTree.Element\<close>: its tag, its attribute dictionary, the text before
  its first child (\<^verbatim>\<open>None\<close> when there is none), the text after its closing tag
  (\<^verbatim>\<open>None\<close> when there is none) and its children in document order.
\<close>

datatype element =
  Element (tag: pystr) (attrib: "(pystr \<times> pystr) list") (etext: "pystr option")
    (tail: "pystr option") (children: "element list")

text \<open>\<^verbatim>\<open>d.get(k)\<close> and \<^verbatim>\<open>d.get(k, default)\<close> on the attribute dictionary.\<close>

definition attrib_get :: "element \<Rightarrow> pystr \<Rightarrow> pystr option" where
  "attrib_get e k = map_of (attrib e) k"

definition attrib_get_default :: "element \<Rightarrow> pystr \<Rightarrow> pystr \<Rightarrow> pystr" where
  "attrib_get_default e k d = (case map_of (attrib e) k of None \<Rightarrow> d | Some v \<Rightarrow> v)"

text \<open>\<^verbatim>\<open>e.iter()\<close>: the element itself, then its descendants, in document order.\<close>

fun iter :: "element \<Rightarrow> element list" where
  "iter (Element tg at tx ta cs) = Element tg at tx ta cs # concat (map iter cs)"

text \<open>
  \<^verbatim>\<open>root.find('.//DIV1[@TYPE="TITLE"]')\<close>: the first proper descendant of \<open>root\<close>, in
  document order, with tag \<^verbatim>\<open>DIV1\<close> and attribute \<^verbatim>\<open>TYPE\<close> equal to \<^verbatim>\<open>TITLE\<close>. The
  root itself is never selected by a \<^verbatim>\<open>.//\<close> path.
\<close>

definition is_title :: "element \<Rightarrow> bool" where
  "is_title e = (tag e = ustr ''DIV1'' \<and> attrib_get e (ustr ''TYPE'') = Some (ustr ''TITLE''))"

definition find_title :: "element \<Rightarrow> element option" where
  "find_title root = find is_title (concat (map iter (children root)))"

text \<open>\<^verbatim>\<open>chapter.find("HEAD")\<close>: the first direct child with tag \<^verbatim>\<open>HEAD\<close>.\<close>

definition find_head :: "element \<Rightarrow> element option" where
  "find_head chapter = find (\<lambda>c. tag c = ustr ''HEAD'') (children chapter)"

section \<open>Chapter extraction\<close>

datatype error =
  RuntimeError nat nat
  | RequestException
  | ParseError
  | AttributeError
  | DatabaseError

text \<open>The test of the loop over \<^verbatim>\<open>title_elem.iter()\<close>.\<close>

definition is_chapter :: "element \<Rightarrow> bool" where
  "is_chapter chapter =
     (endswith (tag chapter) (ustr ''DIV3'') \<and>
      attrib_get chapter (ustr ''TYPE'') = Some (ustr ''CHAPTER''))"

text \<open>
  \<^verbatim>\<open>heading_el.text.strip() if heading_el is not None else ""\<close>. When the \<^verbatim>\<open>HEAD\<close>
  child exists and its text is \<^verbatim>\<open>None\<close>, the call \<^verbatim>\<open>None.strip()\<close> raises
  \<^verbatim>\<open>AttributeError\<close>.
\<close>

definition chapter_heading_of :: "element \<Rightarrow> error + pystr" where
  "chapter_heading_of chapter =
     (case find_head chapter of
        None \<Rightarrow> Inr []
      | Some heading_el \<Rightarrow>
          (case etext heading_el of None \<Rightarrow> Inl AttributeError | Some t \<Rightarrow> Inr (strip t)))"

text \<open>The statement pattern \<^verbatim>\<open>if x: text += x + " "\<close> of \<^verbatim>\<open>extract_text\<close>.\<close>

definition piece :: "pystr option \<Rightarrow> pystr" where
  "piece x = (case x of None \<Rightarrow> [] | Some t \<Rightarrow> if t \<noteq> [] then t @ [32] else [])"

fun extract_text :: "element \<Rightarrow> pystr" where
  "extract_text (Element tg at tx ta cs) =
     foldl (\<lambda>text child. (text @ extract_text child) @ piece (tail child)) (piece tx) cs"

text \<open>One chapter of the loop body: label, heading and word count.\<close>

definition chapter_tuple :: "element \<Rightarrow> error + (pystr \<times> pystr \<times> nat)" where
  "chapter_tuple chapter =
     (let chapter_label = attrib_get_default chapter (ustr ''N'') [] in
      case chapter_heading_of chapter of
        Inl e \<Rightarrow> Inl e
      | Inr chapter_heading \<Rightarrow>
          (let chapter_text = extract_text chapter;
               plain_text = clean_text chapter_text;
               wc = word_count plain_text
           in Inr (chapter_label, chapter_heading, wc)))"

text \<open>
  The generator's loop as consumed by \<^verbatim>\<open>list(...)\<close> in \<^verbatim>\<open>main\<close>: the tuples of the
  matching elements in iteration order, or the first exception raised on the way.
\<close>

fun collect_chapters :: "element list \<Rightarrow> error + (pystr \<times> pystr \<times> nat) list" where
  "collect_chapters [] = Inr []"
| "collect_chapters (chapter # rest) =
     (if is_chapter chapter then
        (case chapter_tuple chapter of
           Inl e \<Rightarrow> Inl e
         | Inr row \<Rightarrow>
             (case collect_chapters rest of Inl e \<Rightarrow> Inl e | Inr rows \<Rightarrow> Inr (row # rows)))
      else collect_chapters rest)"

text \<open>
  \<^verbatim>\<open>list(parse_chapters_for_wordcount(xml_text))\<close>. The XML parser \<^verbatim>\<open>ET.fromstring\<close> is
  a parameter: it gives the root element, or \<open>None\<close> where it raises \<^verbatim>\<open>ParseError\<close>.
\<close>

definition parse_chapters_for_wordcount ::
  "(pystr \<Rightarrow> element option) \<Rightarrow> pystr \<Rightarrow> error + (pystr \<times> pystr \<times> nat) list" where
  "parse_chapters_for_wordcount fromstring xml_text =
     (case fromstring xml_text of
        None \<Rightarrow> Inl ParseError
      | Some root \<Rightarrow>
          (case find_title root of
             None \<Rightarrow> Inr []
           | Some title_elem \<Rightarrow> collect_chapters (iter title_elem)))"

section \<open>Persistence\<close>

text \<open>
  One row of table \<^verbatim>\<open>ecfr_chapter_wordcount\<close>, as the parameter tuple of the
  \<^verbatim>\<open>INSERT\<close> statement: \<^verbatim>\<open>(title_number, chapter_label, chapter_heading, wc, char_count,
  is_reserved)\<close>.
\<close>

record chapter_row =
  title_number :: nat
  chapter_label :: pystr
  chapter_heading :: pystr
  wc :: nat
  char_count :: nat
  is_reserved :: bool

text \<open>\<^verbatim>\<open>"[Reserved]" in chapter_heading if chapter_heading else False\<close>\<close>

definition is_reserved_of :: "pystr \<Rightarrow> bool" where
  "is_reserved_of heading =
     (if heading \<noteq> [] then str_in (ustr ''[Reserved]'') heading else False)"

text \<open>\<^verbatim>\<open>len(chapter_heading) if chapter_heading else 0\<close>\<close>

definition char_count_of :: "pystr \<Rightarrow> nat" where
  "char_count_of heading = (if heading \<noteq> [] then length heading else 0)"

definition make_row :: "nat \<Rightarrow> pystr \<times> pystr \<times> nat \<Rightarrow> chapter_row" where
  "make_row n row =
     (case row of (label, heading, w) \<Rightarrow>
        \<lparr>title_number = n, chapter_label = label, chapter_heading = heading, wc = w,
         char_count = char_count_of heading, is_reserved = is_reserved_of heading\<rparr>)"

text \<open>
  The database as the script sees it: the rows that have been committed, and how many
  connections are open. Rows executed on a connection are pending in its transaction
  (psycopg2 connections do not autocommit); they reach \<open>committed\<close> only through
  \<^verbatim>\<open>conn.commit()\<close>.
\<close>

record db =
  committed :: "chapter_row list"
  open_conns :: nat

text \<open>
  What the database driver does is outside the script. Each call that can raise is a
  parameter that says, for the title being written, the state of the database and the
  pending rows of the transaction, whether the call succeeds.
\<close>

record driver =
  setup_ok :: "db \<Rightarrow> bool"
  connect_ok :: "nat \<Rightarrow> db \<Rightarrow> bool"
  execute_ok :: "nat \<Rightarrow> db \<Rightarrow> chapter_row list \<Rightarrow> chapter_row \<Rightarrow> bool"
  commit_ok :: "nat \<Rightarrow> db \<Rightarrow> chapter_row list \<Rightarrow> bool"

text \<open>
  The \<^verbatim>\<open>for\<close> loop of \<^verbatim>\<open>insert_rows\<close>, with the transaction's pending rows and the
  counter \<^verbatim>\<open>inserted\<close>. A failing \<^verbatim>\<open>cur.execute\<close> raises out of the loop.
\<close>

fun insert_loop ::
  "driver \<Rightarrow> nat \<Rightarrow> db \<Rightarrow> (pystr \<times> pystr \<times> nat) list \<Rightarrow> chapter_row list \<Rightarrow> nat \<Rightarrow>
     error + (chapter_row list \<times> nat)" where
  "insert_loop drv n s [] pending inserted = Inr (pending, inserted)"
| "insert_loop drv n s (row # rows) pending inserted =
     (if execute_ok drv n s pending (make_row n row)
      then insert_loop drv n s rows (pending @ [make_row n row]) (inserted + 1)
      else Inl DatabaseError)"

text \<open>
  \<^verbatim>\<open>insert_rows\<close>: connect, run the loop, commit, close. There is no \<^verbatim>\<open>try\<close> in the
  function, so an exception leaves it at once: nothing after the raising call runs,
  neither \<^verbatim>\<open>conn.commit()\<close> nor \<^verbatim>\<open>conn.close()\<close>.
\<close>

definition insert_rows ::
  "driver \<Rightarrow> nat \<Rightarrow> (pystr \<times> pystr \<times> nat) list \<Rightarrow> db \<Rightarrow> (error + nat) \<times> db" where
  "insert_rows drv n rows s =
     (if \<not> connect_ok drv n s then (Inl DatabaseError, s)
      else
        (let s1 = s\<lparr>open_conns := open_conns s + 1\<rparr> in
         case insert_loop drv n s1 rows [] 0 of
           Inl e \<Rightarrow> (Inl e, s1)
         | Inr (pending, inserted) \<Rightarrow>
             if \<not> commit_ok drv n s1 pending then (Inl DatabaseError, s1)
             else (Inr inserted,
                   s1\<lparr>committed := committed s1 @ pending, open_conns := open_conns s1 - 1\<rparr>)))"

section \<open>The run\<close>

text \<open>
  The outside world of a run: the HTTP response for each title (status code and body,
  or \<open>None\<close> where \<^verbatim>\<open>requests.get\<close> itself raises), the XML parser and the database
  driver.
\<close>

record env =
  http_get :: "nat \<Rightarrow> (nat \<times> pystr) option"
  fromstring :: "pystr \<Rightarrow> element option"
  pg :: driver






text \<open>
  The rows that a title contributes when nothing fails: fetch, extract, then the row
  computed by \<^verbatim>\<open>insert_rows\<close> for each chapter tuple.
\<close>

definition chapter_records ::
  "(pystr \<Rightarrow> element option) \<Rightarrow> nat \<Rightarrow> pystr \<Rightarrow> error + chapter_row list" where
  "chapter_records fs n xml_text =
     (case parse_chapters_for_wordcount fs xml_text of
        Inl e \<Rightarrow> Inl e
      | Inr chapters \<Rightarrow> Inr (map (make_row n) chapters))"




text \<open>
  Every \<^verbatim>\<open>cur.execute\<close> of a batch succeeds: the \<open>i\<close>-th one runs with the rows before it
  pending.
\<close>

definition all_inserts_ok ::
  "driver \<Rightarrow> nat \<Rightarrow> db \<Rightarrow> (pystr \<times> pystr \<times> nat) list \<Rightarrow> bool" where
  "all_inserts_ok drv n s rows =
     (\<forall>i<length rows.
        execute_ok drv n s (map (make_row n) (take i rows)) (make_row n (rows ! i)))"

section \<open>Notions used to state the properties\<close>







text \<open>Words joined by single spaces.\<close>

fun join_sp :: "pystr list \<Rightarrow> pystr" where
  "join_sp [] = []"
| "join_sp [w] = w"
| "join_sp (w # v # ws) = w @ 32 # join_sp (v # ws)"

text \<open>
  Splitting at every whitespace character, as the specification words the word count:
  the tokens between delimiters, empty ones included.
\<close>

fun tokens_at :: "pystr \<Rightarrow> pystr list" where
  "tokens_at [] = [[]]"
| "tokens_at (c # cs) =
     (if isspace c then [] # tokens_at cs
      else (c # hd (tokens_at cs)) # tl (tokens_at cs))"

text \<open>
  No position of the string starts a match of \<^verbatim>\<open><[^>]+>\<close>: every \<^verbatim>\<open><\<close> is directly
  followed by \<^verbatim>\<open>>\<close>, or no \<^verbatim>\<open>>\<close> follows it at all.
\<close>

fun no_tag :: "pystr \<Rightarrow> bool" where
  "no_tag [] = True"
| "no_tag (c # cs) =
     ((c \<noteq> 60 \<or> takeWhile (\<lambda>x. x \<noteq> 62) cs = [] \<or> dropWhile (\<lambda>x. x \<noteq> 62) cs = []) \<and> no_tag cs)"

text \<open>
  The elements visited by \<^verbatim>\<open>iter()\<close> together with their positions: the list of child
  indexes that leads from the starting element to the visited one.
\<close>

fun iter_paths :: "nat list \<Rightarrow> element \<Rightarrow> (nat list \<times> element) list"
  and iter_paths_list :: "nat list \<Rightarrow> nat \<Rightarrow> element list \<Rightarrow> (nat list \<times> element) list" where
  "iter_paths p (Element tg at tx ta cs) = (p, Element tg at tx ta cs) # iter_paths_list p 0 cs"
| "iter_paths_list p i [] = []"
| "iter_paths_list p i (c # cs) = iter_paths (p @ [i]) c @ iter_paths_list p (Suc i) cs"


text \<open>Some element of the subtree passes the chapter test.\<close>

fun has_chapter :: "element \<Rightarrow> bool" where
  "has_chapter (Element tg at tx ta cs) =
     (is_chapter (Element tg at tx ta cs) \<or> list_ex has_chapter cs)"


section \<open>Example inputs\<close>

definition minimal_title_doc :: element where
  "minimal_title_doc =
     Element (ustr ''ECFR'') [] None None
       [Element (ustr ''DIV1'') [(ustr ''N'', ustr ''1''), (ustr ''TYPE'', ustr ''TITLE'')]
          None None
          [Element (ustr ''DIV3'') [(ustr ''N'', ustr ''I''), (ustr ''TYPE'', ustr ''CHAPTER'')]
             None None
             [Element (ustr ''HEAD'') [] (Some (ustr ''Chapter I - General'')) None [],
              Element (ustr ''P'') [] (Some (ustr ''This part applies.'')) None []],
           Element (ustr ''DIV3'') [(ustr ''N'', ustr ''II''), (ustr ''TYPE'', ustr ''CHAPTER'')]
             None None
             [Element (ustr ''HEAD'') [] (Some (ustr ''Chapter II - [Reserved]'')) None []]]]"

text \<open>
  The same title with the \<^verbatim>\<open>TITLE\<close> division itself as the root of the document.
\<close>

definition title_as_root_doc :: element where
  "title_as_root_doc = hd (children minimal_title_doc)"

text \<open>A chapter whose \<^verbatim>\<open>HEAD\<close> child is the empty element \<^verbatim>\<open><HEAD/>\<close>.\<close>

definition empty_head_chapter :: element where
  "empty_head_chapter =
     Element (ustr ''DIV3'') [(ustr ''N'', ustr ''I''), (ustr ''TYPE'', ustr ''CHAPTER'')]
       None None
       [Element (ustr ''HEAD'') [] None None [],
        Element (ustr ''P'') [] (Some (ustr ''This part applies.'')) None []]"

text \<open>A chapter with no \<^verbatim>\<open>HEAD\<close> child.\<close>

definition headless_chapter :: element where
  "headless_chapter =
     Element (ustr ''DIV3'') [(ustr ''N'', ustr ''I''), (ustr ''TYPE'', ustr ''CHAPTER'')]
       None None
       [Element (ustr ''P'') [] (Some (ustr ''This part applies.'')) None []]"




text \<open>A driver on which nothing fails, and one on which every \<^verbatim>\<open>cur.execute\<close> raises.\<close>

definition ok_driver :: driver where
  "ok_driver =
     \<lparr>setup_ok = \<lambda>s. True, connect_ok = \<lambda>n s. True, execute_ok = \<lambda>n s pending row. True,
      commit_ok = \<lambda>n s pending. True\<rparr>"

definition failing_driver :: driver where
  "failing_driver =
     \<lparr>setup_ok = \<lambda>s. True, connect_ok = \<lambda>n s. True, execute_ok = \<lambda>n s pending row. False,
      commit_ok = \<lambda>n s pending. True\<rparr>"

text \<open>A driver on which every \<^verbatim>\<open>cur.execute\<close> succeeds and \<^verbatim>\<open>conn.commit()\<close> raises.\<close>

definition commit_failing_driver :: driver where
  "commit_failing_driver =
     \<lparr>setup_ok = \<lambda>s. True, connect_ok = \<lambda>n s. True, execute_ok = \<lambda>n s pending row. True,
      commit_ok = \<lambda>n s pending. False\<rparr>"

definition empty_db :: db where
  "empty_db = \<lparr>committed = [], open_conns = 0\<rparr>"


section \<open>Properties\<close>


subsection \<open>Word count\<close>

lemma tokens_at_nonempty: "tokens_at s \<noteq> []"
  by (induction s) auto

lemma tokens_at_word_append:
  "\<forall>x\<in>set xs. \<not> isspace x \<Longrightarrow>
     tokens_at (xs @ ys) = (xs @ hd (tokens_at ys)) # tl (tokens_at ys)"
  by (induction xs) (auto simp: tokens_at_nonempty)

lemma split_ws_tokens: "split_ws s = filter (\<lambda>t. t \<noteq> []) (tokens_at s)"
proof (induction s rule: split_ws.induct)
  case 1
  show ?case by simp
next
  case (2 c cs)
  show ?case
  proof (cases "isspace c")
    case True
    with 2 show ?thesis by simp
  next
    case False
    let ?w = "takeWhile (\<lambda>x. \<not> isspace x) cs"
    let ?r = "dropWhile (\<lambda>x. \<not> isspace x) cs"
    have ih: "split_ws ?r = filter (\<lambda>t. t \<noteq> []) (tokens_at ?r)"
      using 2(2) False by simp
    have w: "\<forall>x\<in>set (c # ?w). \<not> isspace x"
      using False by (auto dest: set_takeWhileD)
    have "tokens_at (c # cs) = tokens_at ((c # ?w) @ ?r)" by simp
    also have "\<dots> = ((c # ?w) @ hd (tokens_at ?r)) # tl (tokens_at ?r)"
      using w by (rule tokens_at_word_append)
    finally have eq: "tokens_at (c # cs) = ((c # ?w) @ hd (tokens_at ?r)) # tl (tokens_at ?r)" .
    have hdr: "hd (tokens_at ?r) = []"
    proof (cases ?r)
      case Nil
      then have "tokens_at ?r = tokens_at []" by (simp only:)
      then show ?thesis by simp
    next
      case (Cons d ds)
      then have "isspace d" using hd_dropWhile [of "\<lambda>x. \<not> isspace x" cs] by simp
      with Cons show ?thesis by simp
    qed
    have "filter (\<lambda>t. t \<noteq> []) (tokens_at ?r) = filter (\<lambda>t. t \<noteq> []) (tl (tokens_at ?r))"
      using hdr tokens_at_nonempty [of ?r] by (cases "tokens_at ?r") auto
    with eq hdr ih False show ?thesis by simp
  qed
qed

lemma clean_text_example: "clean_text (ustr ''A B  C\<newline> D'') = ustr ''A B C D''"
  by (simp add: clean_text_def ustr_def strip_def lstrip_def rstrip_def isspace_def)

lemma word_count_example: "word_count (ustr ''A B C D'') = 4"
  by (simp add: word_count_def ustr_def isspace_def)

text \<open>
  Claim C8. For every string, and so for every normalized body text, \<open>word_count\<close> is the
  number of non-empty tokens obtained by cutting the string at its whitespace characters;
  the empty string has word count 0; the raw text \<^verbatim>\<open>"A B  C\n D"\<close> is normalized to
  \<^verbatim>\<open>"A B C D"\<close>, which has word count 4.
\<close>

theorem C8_word_count_tokens:
  "word_count s = length (filter (\<lambda>t. t \<noteq> []) (tokens_at s)) \<and>
   word_count [] = 0 \<and>
   clean_text (ustr ''A B  C\<newline> D'') = ustr ''A B C D'' \<and>
   word_count (clean_text (ustr ''A B  C\<newline> D'')) = 4"
proof -
  have "word_count s = length (filter (\<lambda>t. t \<noteq> []) (tokens_at s))"
    by (cases s) (simp_all add: word_count_def split_ws_tokens)
  moreover have "word_count [] = 0"
    by (simp add: word_count_def)
  ultimately show ?thesis
    by (simp only: clean_text_example word_count_example)
qed

subsection \<open>Reserved flag\<close>

lemma str_in_sublist: "str_in needle hay = sublist needle hay"
  by (induction hay) (auto simp: sublist_Cons_right)

text \<open>
  Claim C9. The reserved flag that \<^verbatim>\<open>insert_rows\<close> writes into the row of a chapter is
  true exactly when the chapter's heading contains the literal \<^verbatim>\<open>[Reserved]\<close>
  somewhere; it is false for the empty heading, which is also the heading of a chapter
  without heading element.
\<close>

theorem C9_is_reserved_iff_substring:
  "is_reserved (make_row n (label, heading, w)) =
     (\<exists>pre post. heading = pre @ ustr ''[Reserved]'' @ post) \<and>
   is_reserved_of heading = (\<exists>pre post. heading = pre @ ustr ''[Reserved]'' @ post) \<and>
   is_reserved_of [] = False \<and>
   is_reserved (make_row n (label, [], w)) = False"
proof -
  have "ustr ''[Reserved]'' \<noteq> []" by (simp add: ustr_def)
  then have "is_reserved_of heading = sublist (ustr ''[Reserved]'') heading"
    by (cases heading) (simp_all add: is_reserved_of_def str_in_sublist)
  then have "is_reserved_of heading = (\<exists>pre post. heading = pre @ ustr ''[Reserved]'' @ post)"
    by (simp add: sublist_def)
  moreover have "is_reserved (make_row n (label, h, w)) = is_reserved_of h" for h
    by (simp add: make_row_def)
  moreover have "is_reserved_of [] = False"
    by (simp add: is_reserved_of_def)
  ultimately show ?thesis by simp
qed

subsection \<open>End to end\<close>

lemma minimal_title_doc_find: "find_title minimal_title_doc = Some (hd (children minimal_title_doc))"
  by (simp add: minimal_title_doc_def ustr_def find_title_def is_title_def attrib_get_def)

lemma minimal_title_doc_collect:
  "collect_chapters (iter (hd (children minimal_title_doc))) =
     Inr [(ustr ''I'', ustr ''Chapter I - General'', 7),
          (ustr ''II'', ustr ''Chapter II - [Reserved]'', 4)]"
  by (simp add: minimal_title_doc_def ustr_def is_chapter_def endswith_def attrib_get_def
      attrib_get_default_def chapter_tuple_def chapter_heading_of_def find_head_def piece_def
      clean_text_def strip_def lstrip_def rstrip_def word_count_def isspace_def)

lemma minimal_title_doc_rows:
  "map (make_row n)
     [(ustr ''I'', ustr ''Chapter I - General'', 7),
      (ustr ''II'', ustr ''Chapter II - [Reserved]'', 4)] =
   [\<lparr>title_number = n, chapter_label = ustr ''I'',
     chapter_heading = ustr ''Chapter I - General'', wc = 7, char_count = 19,
     is_reserved = False\<rparr>,
    \<lparr>title_number = n, chapter_label = ustr ''II'',
     chapter_heading = ustr ''Chapter II - [Reserved]'', wc = 4, char_count = 23,
     is_reserved = True\<rparr>]"
  by (simp add: make_row_def char_count_of_def is_reserved_of_def ustr_def)

lemma minimal_title_doc_records:
  assumes "fs xml_text = Some minimal_title_doc"
  shows "chapter_records fs n xml_text =
     Inr [\<lparr>title_number = n, chapter_label = ustr ''I'',
           chapter_heading = ustr ''Chapter I - General'', wc = 7, char_count = 19,
           is_reserved = False\<rparr>,
          \<lparr>title_number = n, chapter_label = ustr ''II'',
           chapter_heading = ustr ''Chapter II - [Reserved]'', wc = 4, char_count = 23,
           is_reserved = True\<rparr>]"
  unfolding chapter_records_def parse_chapters_for_wordcount_def
  by (simp only: assms minimal_title_doc_find minimal_title_doc_collect minimal_title_doc_rows
      option.case sum.case)

text \<open>
  Claim C1, amended. For the minimal title document (a root element that contains the
  \<^verbatim>\<open>TITLE\<close> division, which has two
  \<^verbatim>\<open>CHAPTER\<close> divisions: \<^verbatim>\<open>I\<close> with heading \<^verbatim>\<open>Chapter I - General\<close> and body
  \<^verbatim>\<open>This part applies.\<close>, and \<^verbatim>\<open>II\<close> with heading \<^verbatim>\<open>Chapter II - [Reserved]\<close> and no
  body) extraction, normalization and statistics give exactly two records, for any title
  number: word count 7, character count 19, not reserved; and word count 4, character
  count 23, reserved. Each word count includes the words of the heading.
\<close>

theorem C1_minimal_title_records:
  "fs xml_text = Some minimal_title_doc \<Longrightarrow>
   chapter_records fs n xml_text =
     Inr [\<lparr>title_number = n, chapter_label = ustr ''I'',
           chapter_heading = ustr ''Chapter I - General'', wc = 7, char_count = 19,
           is_reserved = False\<rparr>,
          \<lparr>title_number = n, chapter_label = ustr ''II'',
           chapter_heading = ustr ''Chapter II - [Reserved]'', wc = 4, char_count = 23,
           is_reserved = True\<rparr>]"
  by (rule minimal_title_doc_records)

text \<open>The amended claim C1 at title 1, with a parser that returns the minimal document.\<close>

theorem C1_minimal_title_records_witness:
  "(\<lambda>x. Some minimal_title_doc) [] = Some minimal_title_doc \<and>
   chapter_records (\<lambda>x. Some minimal_title_doc) 1 [] =
     Inr [\<lparr>title_number = 1, chapter_label = ustr ''I'',
           chapter_heading = ustr ''Chapter I - General'', wc = 7, char_count = 19,
           is_reserved = False\<rparr>,
          \<lparr>title_number = 1, chapter_label = ustr ''II'',
           chapter_heading = ustr ''Chapter II - [Reserved]'', wc = 4, char_count = 23,
           is_reserved = True\<rparr>]"
  using C1_minimal_title_records [of "\<lambda>x. Some minimal_title_doc" "[]" 1] by simp

lemma title_as_root_doc_parse:
  "fs xml_text = Some title_as_root_doc \<Longrightarrow> parse_chapters_for_wordcount fs xml_text = Inr []"
  by (simp add: parse_chapters_for_wordcount_def title_as_root_doc_def minimal_title_doc_def
      find_title_def is_title_def attrib_get_def ustr_def)

text \<open>
  Claim C1 as stated (character count 20 for the first chapter, word count 3 for the
  second) does not hold for the minimal document. When the \<^verbatim>\<open>TITLE\<close> division is the
  root of the document, the search for it among the descendants of the root finds
  nothing and no record is produced.
\<close>

theorem C1_spec_values_counterexample:
  "chapter_records (\<lambda>x. Some minimal_title_doc) 1 [] \<noteq>
     Inr [\<lparr>title_number = 1, chapter_label = ustr ''I'',
           chapter_heading = ustr ''Chapter I - General'', wc = 7, char_count = 20,
           is_reserved = False\<rparr>,
          \<lparr>title_number = 1, chapter_label = ustr ''II'',
           chapter_heading = ustr ''Chapter II - [Reserved]'', wc = 3, char_count = 23,
           is_reserved = True\<rparr>] \<and>
   chapter_records (\<lambda>x. Some title_as_root_doc) 1 [] = Inr []"
  using minimal_title_doc_records [of "\<lambda>x. Some minimal_title_doc" "[]" 1]
    title_as_root_doc_parse [of "\<lambda>x. Some title_as_root_doc" "[]"]
  by (simp add: chapter_records_def)

subsection \<open>Headings\<close>

text \<open>
  Claim C2 on the code. A chapter whose \<^verbatim>\<open>HEAD\<close> child has no text makes the extraction
  raise \<^verbatim>\<open>AttributeError\<close> instead of giving the empty heading; a chapter with no
  \<^verbatim>\<open>HEAD\<close> child gives the empty heading and character count 0.
\<close>

theorem C2_head_without_text_raises:
  "chapter_tuple empty_head_chapter = Inl AttributeError \<and>
   collect_chapters (iter empty_head_chapter) = Inl AttributeError \<and>
   chapter_tuple headless_chapter = Inr (ustr ''I'', [], 3) \<and>
   char_count (make_row n (ustr ''I'', [], 3)) = 0"
  by (simp add: empty_head_chapter_def headless_chapter_def ustr_def is_chapter_def endswith_def
      attrib_get_def attrib_get_default_def chapter_tuple_def chapter_heading_of_def
      find_head_def piece_def clean_text_def strip_def lstrip_def rstrip_def word_count_def isspace_def
      make_row_def char_count_of_def)

subsection \<open>Connection release\<close>

text \<open>
  Claim C6 on the code. When a \<^verbatim>\<open>cur.execute\<close> raises, \<^verbatim>\<open>insert_rows\<close> ends with its
  connection still open; the connection is closed only on the path without exception.
\<close>

theorem C6_connection_left_open_on_failure:
  "insert_rows failing_driver 1 [(ustr ''I'', ustr ''Chapter I - General'', 7)] empty_db =
     (Inl DatabaseError, \<lparr>committed = [], open_conns = 1\<rparr>) \<and>
   insert_rows ok_driver 1 [(ustr ''I'', ustr ''Chapter I - General'', 7)] empty_db =
     (Inr 1, \<lparr>committed = [make_row 1 (ustr ''I'', ustr ''Chapter I - General'', 7)],
              open_conns = 0\<rparr>)"
  by (simp add: insert_rows_def failing_driver_def ok_driver_def empty_db_def)

subsection \<open>Whitespace normalization\<close>

lemma split_ws_no_empty: "[] \<notin> set (split_ws s)"
  by (induction s rule: split_ws.induct) auto

lemma join_sp_Cons: "join_sp (w # ws) = (if ws = [] then w else w @ 32 # join_sp ws)"
  by (cases ws) simp_all

lemma join_sp_eq_Nil: "[] \<notin> set ws \<Longrightarrow> join_sp ws = [] \<longleftrightarrow> ws = []"
  by (cases ws) (auto simp: join_sp_Cons)

lemma isspace_32: "isspace 32"
  by (simp add: isspace_def)

lemma re_sub_ws_word:
  "\<forall>x\<in>set w. \<not> isspace x \<Longrightarrow> re_sub_ws (w @ r) = w @ re_sub_ws r"
  by (induction w) auto

lemma re_sub_ws_no_leading_space:
  "d = [] \<or> \<not> isspace (hd d) \<Longrightarrow> lstrip (re_sub_ws d) = re_sub_ws d"
  by (cases d) (simp_all add: lstrip_def)

lemma lstrip_shape: "lstrip s = [] \<or> \<not> isspace (hd (lstrip s))"
  unfolding lstrip_def using hd_dropWhile [of isspace s] by blast

lemma re_sub_ws_lstrip: "lstrip (re_sub_ws s) = re_sub_ws (lstrip s)"
proof (cases s)
  case Nil
  then show ?thesis by (simp add: lstrip_def)
next
  case (Cons c cs)
  show ?thesis
  proof (cases "isspace c")
    case False
    with Cons show ?thesis by (simp add: lstrip_def)
  next
    case True
    have "lstrip (re_sub_ws (c # cs)) = lstrip (re_sub_ws (lstrip cs))"
      using True by (simp add: lstrip_def isspace_32)
    also have "\<dots> = re_sub_ws (lstrip cs)"
      by (rule re_sub_ws_no_leading_space) (rule lstrip_shape)
    also have "\<dots> = re_sub_ws (lstrip (c # cs))"
      using True by (simp add: lstrip_def)
    finally show ?thesis using Cons by simp
  qed
qed

lemma rstrip_append:
  "rstrip (xs @ ys) = (if \<forall>y\<in>set ys. isspace y then rstrip xs else xs @ rstrip ys)"
  by (simp add: rstrip_def dropWhile_append)

lemma rstrip_word: "w \<noteq> [] \<Longrightarrow> \<not> isspace (last w) \<Longrightarrow> rstrip w = w"
  by (cases w rule: rev_cases) (simp_all add: rstrip_def)

lemma rstrip_eq_Nil: "rstrip xs = [] \<longleftrightarrow> (\<forall>x\<in>set xs. isspace x)"
  by (simp add: rstrip_def)

lemma rstrip_space_Cons: "rstrip (32 # xs) = (if rstrip xs = [] then [] else 32 # rstrip xs)"
  using rstrip_append [of "[32]" xs] by (simp add: rstrip_eq_Nil) (simp add: rstrip_def isspace_32)

lemma rstrip_word_append:
  "w \<noteq> [] \<Longrightarrow> \<not> isspace (last w) \<Longrightarrow>
     rstrip (w @ xs) = (if rstrip xs = [] then w else w @ rstrip xs)"
  by (simp add: rstrip_append rstrip_eq_Nil rstrip_word)

lemma word_rest_shape:
  "dropWhile (\<lambda>x. \<not> isspace x) cs = [] \<or> isspace (hd (dropWhile (\<lambda>x. \<not> isspace x) cs))"
  using hd_dropWhile [of "\<lambda>x. \<not> isspace x" cs] by blast

lemma re_sub_ws_rest:
  assumes "r = [] \<or> isspace (hd r)"
  shows "rstrip (re_sub_ws r) =
           (if rstrip (re_sub_ws (lstrip r)) = [] then [] else 32 # rstrip (re_sub_ws (lstrip r)))"
proof (cases r)
  case Nil
  then show ?thesis by (simp add: lstrip_def rstrip_def)
next
  case (Cons d ds)
  with assms have "isspace d" by simp
  then have "re_sub_ws r = 32 # re_sub_ws (lstrip r)"
    using Cons by (simp add: lstrip_def)
  then show ?thesis by (simp only: rstrip_space_Cons)
qed

lemma rstrip_re_sub_ws: "rstrip (re_sub_ws (lstrip s)) = join_sp (split_ws s)"
proof (induction s rule: split_ws.induct)
  case 1
  show ?case by (simp add: lstrip_def rstrip_def)
next
  case (2 c cs)
  show ?case
  proof (cases "isspace c")
    case True
    with 2 show ?thesis by (simp add: lstrip_def)
  next
    case False
    define w where "w = c # takeWhile (\<lambda>x. \<not> isspace x) cs"
    define r where "r = dropWhile (\<lambda>x. \<not> isspace x) cs"
    define J where "J = join_sp (split_ws r)"
    have ih: "rstrip (re_sub_ws (lstrip r)) = J"
      using 2(2) False by (simp add: r_def J_def)
    have w: "\<forall>x\<in>set w. \<not> isspace x"
      using False by (auto simp: w_def dest: set_takeWhileD)
    have wne: "w \<noteq> []" by (simp add: w_def)
    have lastw: "\<not> isspace (last w)"
      using w wne last_in_set [of w] by blast
    have split: "c # cs = w @ r" by (simp add: w_def r_def)
    have sub: "re_sub_ws (c # cs) = w @ re_sub_ws r"
      by (subst split) (rule re_sub_ws_word [OF w])
    have rr: "rstrip (re_sub_ws r) = (if J = [] then [] else 32 # J)"
      using re_sub_ws_rest [of r] word_rest_shape [of cs] by (simp add: r_def [symmetric] ih)
    have "rstrip (re_sub_ws (lstrip (c # cs))) = rstrip (w @ re_sub_ws r)"
      using False sub by (simp add: lstrip_def)
    also have "\<dots> = (if J = [] then w else w @ 32 # J)"
      by (simp add: rstrip_word_append [OF wne lastw] rr)
    also have "\<dots> = join_sp (w # split_ws r)"
      using join_sp_eq_Nil [OF split_ws_no_empty, of r] by (simp add: join_sp_Cons J_def)
    also have "w # split_ws r = split_ws (c # cs)"
      using False by (simp add: w_def r_def)
    finally show ?thesis .
  qed
qed

lemma strip_re_sub_ws: "strip (re_sub_ws s) = join_sp (split_ws s)"
  by (simp add: strip_def re_sub_ws_lstrip rstrip_re_sub_ws)

lemma clean_text_join: "clean_text s = join_sp (split_ws (re_sub_tags s))"
  by (simp add: clean_text_def strip_re_sub_ws)

lemma takeWhile_before_space:
  "takeWhile (\<lambda>x. \<not> isspace x) (cs @ 32 # b) = takeWhile (\<lambda>x. \<not> isspace x) cs"
  by (induction cs) (simp_all add: isspace_32)

lemma dropWhile_before_space:
  "dropWhile (\<lambda>x. \<not> isspace x) (cs @ 32 # b) = dropWhile (\<lambda>x. \<not> isspace x) cs @ 32 # b"
  by (induction cs) (simp_all add: isspace_32)

lemma split_ws_sep: "split_ws (a @ 32 # b) = split_ws a @ split_ws b"
proof (induction a rule: split_ws.induct)
  case 1
  show ?case by (simp add: isspace_32)
next
  case (2 c cs)
  show ?case
  proof (cases "isspace c")
    case True
    with 2(1) show ?thesis by simp
  next
    case False
    have "split_ws ((c # cs) @ 32 # b) =
        (c # takeWhile (\<lambda>x. \<not> isspace x) cs) #
          split_ws (dropWhile (\<lambda>x. \<not> isspace x) cs @ 32 # b)"
      using False by (simp add: takeWhile_before_space dropWhile_before_space)
    also have "\<dots> = (c # takeWhile (\<lambda>x. \<not> isspace x) cs) #
          (split_ws (dropWhile (\<lambda>x. \<not> isspace x) cs) @ split_ws b)"
      using 2(2) [OF False] by (simp only:)
    also have "\<dots> = split_ws (c # cs) @ split_ws b"
      using False by simp
    finally show ?thesis .
  qed
qed

lemma split_ws_word:
  assumes "w \<noteq> []" and "\<forall>x\<in>set w. \<not> isspace x"
  shows "split_ws w = [w]"
proof (cases w)
  case Nil
  with assms show ?thesis by simp
next
  case (Cons c cs)
  with assms have c: "\<not> isspace c" and cs: "\<forall>x\<in>set cs. \<not> isspace x" by simp_all
  from cs have t: "takeWhile (\<lambda>x. \<not> isspace x) cs = cs" by simp
  from cs have d: "dropWhile (\<lambda>x. \<not> isspace x) cs = []" by simp
  have "split_ws (c # cs) =
      (c # takeWhile (\<lambda>x. \<not> isspace x) cs) # split_ws (dropWhile (\<lambda>x. \<not> isspace x) cs)"
    using c by (simp only: split_ws.simps if_False)
  also have "\<dots> = [c # cs]" by (simp only: t d split_ws.simps)
  finally show ?thesis using Cons by simp
qed

lemma split_ws_join_words:
  "[] \<notin> set ws \<Longrightarrow> \<forall>w\<in>set ws. \<forall>x\<in>set w. \<not> isspace x \<Longrightarrow> split_ws (join_sp ws) = ws"
proof (induction ws rule: join_sp.induct)
  case 1
  show ?case by simp
next
  case (2 w)
  then show ?case by (simp add: split_ws_word)
next
  case (3 w v ws)
  have w: "split_ws w = [w]"
    using 3(2,3) by (intro split_ws_word) auto
  have "split_ws (join_sp (v # ws)) = v # ws"
    using 3 by simp
  then have "split_ws (w @ 32 # join_sp (v # ws)) = w # v # ws"
    by (simp only: split_ws_sep w) simp
  then show ?case by simp
qed

lemma split_ws_no_space: "w \<in> set (split_ws s) \<Longrightarrow> x \<in> set w \<Longrightarrow> \<not> isspace x"
proof (induction s rule: split_ws.induct)
  case 1
  then show ?case by simp
next
  case (2 c cs)
  show ?case
  proof (cases "isspace c")
    case True
    with 2 show ?thesis by simp
  next
    case False
    from 2(3) False consider
      "w = c # takeWhile (\<lambda>x. \<not> isspace x) cs" |
      "w \<in> set (split_ws (dropWhile (\<lambda>x. \<not> isspace x) cs))"
      by (simp only: split_ws.simps if_False set_simps insert_iff) blast
    then show ?thesis
    proof cases
      case 1
      with 2(4) False show ?thesis by (auto dest: set_takeWhileD)
    next
      case 2
      then show ?thesis using "2.IH"(2) [OF False _ "2.prems"(2)] by blast
    qed
  qed
qed

lemma split_ws_join: "split_ws (join_sp (split_ws s)) = split_ws s"
  by (rule split_ws_join_words [OF split_ws_no_empty]) (blast dest: split_ws_no_space)

lemma clean_text_normal: "strip (re_sub_ws (join_sp (split_ws s))) = join_sp (split_ws s)"
  by (simp only: strip_re_sub_ws split_ws_join)

subsection \<open>Tag removal\<close>

lemma set_re_sub_tags: "set (re_sub_tags s) \<subseteq> insert 32 (set s)"
proof (induction s rule: re_sub_tags.induct)
  case 1
  show ?case by simp
next
  case (2 c cs)
  let ?m = "c = 60 \<and> takeWhile (\<lambda>x. x \<noteq> 62) cs \<noteq> [] \<and> dropWhile (\<lambda>x. x \<noteq> 62) cs \<noteq> []"
  show ?case
  proof (cases ?m)
    case True
    have "set (tl (dropWhile (\<lambda>x. x \<noteq> 62) cs)) \<subseteq> set cs"
      using True by (meson list.set_sel(2) set_dropWhileD subsetI)
    moreover have "re_sub_tags (c # cs) = 32 # re_sub_tags (tl (dropWhile (\<lambda>x. x \<noteq> 62) cs))"
      using True by (simp del: dropWhile_eq_Nil_conv)
    ultimately show ?thesis using 2(1) [OF True] by auto
  next
    case False
    then have "re_sub_tags (c # cs) = c # re_sub_tags cs"
      by (simp del: dropWhile_eq_Nil_conv)
    then show ?thesis using 2(2) [OF False] by auto
  qed
qed

lemma no_gt_re_sub_tags: "62 \<notin> set s \<Longrightarrow> 62 \<notin> set (re_sub_tags s)"
  using set_re_sub_tags [of s] by auto

lemma after_lt_re_sub_tags:
  assumes "takeWhile (\<lambda>x. x \<noteq> 62) cs = [] \<or> dropWhile (\<lambda>x. x \<noteq> 62) cs = []"
  shows "takeWhile (\<lambda>x. x \<noteq> 62) (re_sub_tags cs) = [] \<or>
         dropWhile (\<lambda>x. x \<noteq> 62) (re_sub_tags cs) = []"
proof (cases "62 \<in> set cs")
  case False
  then have "62 \<notin> set (re_sub_tags cs)" by (rule no_gt_re_sub_tags)
  then show ?thesis by auto
next
  case True
  with assms have "takeWhile (\<lambda>x. x \<noteq> 62) cs = []" by auto
  with True obtain cs' where "cs = 62 # cs'"
    by (cases cs) (auto split: if_splits)
  then show ?thesis by simp
qed

lemma no_tag_re_sub_tags: "no_tag (re_sub_tags s)"
proof (induction s rule: re_sub_tags.induct)
  case 1
  show ?case by simp
next
  case (2 c cs)
  let ?m = "c = 60 \<and> takeWhile (\<lambda>x. x \<noteq> 62) cs \<noteq> [] \<and> dropWhile (\<lambda>x. x \<noteq> 62) cs \<noteq> []"
  show ?case
  proof (cases ?m)
    case True
    have "re_sub_tags (c # cs) = 32 # re_sub_tags (tl (dropWhile (\<lambda>x. x \<noteq> 62) cs))"
      using True by (simp del: dropWhile_eq_Nil_conv)
    then show ?thesis using 2(1) [OF True] by simp
  next
    case False
    have eq: "re_sub_tags (c # cs) = c # re_sub_tags cs"
      using False by (simp del: dropWhile_eq_Nil_conv)
    have "c \<noteq> 60 \<or> takeWhile (\<lambda>x. x \<noteq> 62) (re_sub_tags cs) = [] \<or>
        dropWhile (\<lambda>x. x \<noteq> 62) (re_sub_tags cs) = []"
      using False after_lt_re_sub_tags [of cs] by blast
    then show ?thesis using 2(2) [OF False] by (simp only: eq no_tag.simps)
  qed
qed

lemma re_sub_tags_no_tag: "no_tag s \<Longrightarrow> re_sub_tags s = s"
proof (induction s)
  case Nil
  show ?case by simp
next
  case (Cons c cs)
  then have "\<not> (c = 60 \<and> takeWhile (\<lambda>x. x \<noteq> 62) cs \<noteq> [] \<and> dropWhile (\<lambda>x. x \<noteq> 62) cs \<noteq> [])"
    and "no_tag cs"
    by (simp_all del: dropWhile_eq_Nil_conv)
  with Cons.IH show ?case by (simp del: dropWhile_eq_Nil_conv)
qed

lemma set_re_sub_ws: "set (re_sub_ws s) \<subseteq> insert 32 (set s)"
proof (induction s rule: re_sub_ws.induct)
  case 1
  show ?case by simp
next
  case (2 c cs)
  show ?case
  proof (cases "isspace c")
    case True
    have "set (dropWhile isspace cs) \<subseteq> set cs"
      by (meson set_dropWhileD subsetI)
    with 2(1) [OF True] True show ?thesis by auto
  next
    case False
    with 2(2) [OF False] show ?thesis by auto
  qed
qed

lemma no_tag_suffix: "no_tag (xs @ ys) \<Longrightarrow> no_tag ys"
  by (induction xs) simp_all

lemma after_lt_prefix:
  assumes "takeWhile (\<lambda>x. x \<noteq> 62) (xs @ ys) = [] \<or> dropWhile (\<lambda>x. x \<noteq> 62) (xs @ ys) = []"
  shows "takeWhile (\<lambda>x. x \<noteq> (62::nat)) xs = [] \<or> dropWhile (\<lambda>x. x \<noteq> 62) xs = []"
proof (cases xs)
  case Nil
  then show ?thesis by simp
next
  case (Cons a as)
  with assms show ?thesis by (auto split: if_splits)
qed

lemma no_tag_prefix: "no_tag (xs @ ys) \<Longrightarrow> no_tag xs"
proof (induction xs)
  case Nil
  show ?case by simp
next
  case (Cons c xs)
  from Cons.prems have 1: "c \<noteq> 60 \<or> takeWhile (\<lambda>x. x \<noteq> 62) (xs @ ys) = [] \<or>
      dropWhile (\<lambda>x. x \<noteq> 62) (xs @ ys) = []" and 2: "no_tag (xs @ ys)"
    by (simp_all del: dropWhile_eq_Nil_conv)
  from 1 have "c \<noteq> 60 \<or> takeWhile (\<lambda>x. x \<noteq> 62) xs = [] \<or> dropWhile (\<lambda>x. x \<noteq> 62) xs = []"
    using after_lt_prefix [of xs ys] by blast
  with Cons.IH [OF 2] show ?case by (simp del: dropWhile_eq_Nil_conv)
qed

lemma not_isspace_62: "\<not> isspace 62"
  by (simp add: isspace_def)

lemma after_lt_re_sub_ws:
  assumes "takeWhile (\<lambda>x. x \<noteq> 62) cs = [] \<or> dropWhile (\<lambda>x. x \<noteq> 62) cs = []"
  shows "takeWhile (\<lambda>x. x \<noteq> 62) (re_sub_ws cs) = [] \<or>
         dropWhile (\<lambda>x. x \<noteq> 62) (re_sub_ws cs) = []"
proof (cases "62 \<in> set cs")
  case False
  then have "62 \<notin> set (re_sub_ws cs)" using set_re_sub_ws [of cs] by auto
  then show ?thesis by auto
next
  case True
  with assms have "takeWhile (\<lambda>x. x \<noteq> 62) cs = []" by auto
  with True obtain cs' where "cs = 62 # cs'"
    by (cases cs) (auto split: if_splits)
  then show ?thesis by (simp add: not_isspace_62)
qed

lemma no_tag_re_sub_ws: "no_tag s \<Longrightarrow> no_tag (re_sub_ws s)"
proof (induction s rule: re_sub_ws.induct)
  case 1
  show ?case by simp
next
  case (2 c cs)
  from "2.prems" have 1: "c \<noteq> 60 \<or> takeWhile (\<lambda>x. x \<noteq> 62) cs = [] \<or>
      dropWhile (\<lambda>x. x \<noteq> 62) cs = []" and cs: "no_tag cs"
    by (simp_all del: dropWhile_eq_Nil_conv)
  show ?case
  proof (cases "isspace c")
    case True
    have "no_tag (dropWhile isspace cs)"
      using cs no_tag_suffix [of "takeWhile isspace cs" "dropWhile isspace cs"] by simp
    with 2(1) [OF True] True show ?thesis by simp
  next
    case False
    have "c \<noteq> 60 \<or> takeWhile (\<lambda>x. x \<noteq> 62) (re_sub_ws cs) = [] \<or>
        dropWhile (\<lambda>x. x \<noteq> 62) (re_sub_ws cs) = []"
      using 1 after_lt_re_sub_ws [of cs] by blast
    with 2(2) [OF False cs] False show ?thesis by (simp del: dropWhile_eq_Nil_conv)
  qed
qed

lemma no_tag_strip: "no_tag s \<Longrightarrow> no_tag (strip s)"
proof -
  assume s: "no_tag s"
  have "no_tag (lstrip s)"
    using s no_tag_suffix [of "takeWhile isspace s" "dropWhile isspace s"]
    by (simp add: lstrip_def)
  moreover have "lstrip s = rstrip (lstrip s) @ rev (takeWhile isspace (rev (lstrip s)))"
    unfolding rstrip_def by (simp flip: rev_append)
  ultimately show ?thesis
    unfolding strip_def using no_tag_prefix by metis
qed

lemma no_tag_clean_text: "no_tag (clean_text s)"
  unfolding clean_text_def by (intro no_tag_strip no_tag_re_sub_ws no_tag_re_sub_tags)

text \<open>
  Claim C10. Cleaning is idempotent: cleaning a cleaned string changes nothing.
\<close>

theorem C10_clean_text_idempotent: "clean_text (clean_text s) = clean_text s"
proof -
  have "clean_text (clean_text s) = strip (re_sub_ws (clean_text s))"
    by (simp add: clean_text_def [of "clean_text s"] re_sub_tags_no_tag [OF no_tag_clean_text])
  also have "\<dots> = strip (re_sub_ws (join_sp (split_ws (re_sub_tags s))))"
    by (simp only: clean_text_join)
  also have "\<dots> = join_sp (split_ws (re_sub_tags s))"
    by (rule clean_text_normal)
  finally show ?thesis by (simp only: clean_text_join)
qed

subsection \<open>Text extraction\<close>


















subsection \<open>Writing a batch\<close>

lemma insert_loop_result:
  "insert_loop drv n s rows pending inserted =
     (if \<forall>i<length rows.
           execute_ok drv n s (pending @ map (make_row n) (take i rows)) (make_row n (rows ! i))
      then Inr (pending @ map (make_row n) rows, inserted + length rows)
      else Inl DatabaseError)"
proof (induction rows arbitrary: pending inserted)
  case Nil
  show ?case by simp
next
  case (Cons row rows)
  show ?case
    by (simp add: Cons.IH All_less_Suc2)
qed

lemma insert_loop_all_inserts_ok:
  "insert_loop drv n s rows [] 0 =
     (if all_inserts_ok drv n s rows then Inr (map (make_row n) rows, length rows)
      else Inl DatabaseError)"
  by (simp add: insert_loop_result all_inserts_ok_def)

lemma insert_rows_result:
  "insert_rows drv n rows s =
     (if \<not> connect_ok drv n s then (Inl DatabaseError, s)
      else if all_inserts_ok drv n (s\<lparr>open_conns := open_conns s + 1\<rparr>) rows \<and>
              commit_ok drv n (s\<lparr>open_conns := open_conns s + 1\<rparr>) (map (make_row n) rows)
      then (Inr (length rows),
            s\<lparr>committed := committed s @ map (make_row n) rows, open_conns := open_conns s\<rparr>)
      else (Inl DatabaseError, s\<lparr>open_conns := open_conns s + 1\<rparr>))"
  by (simp add: insert_rows_def insert_loop_all_inserts_ok Let_def)

text \<open>
  Claim C5, amended. Writing the batch of one title is atomic. When the connection is made, every
  insert succeeds and the commit succeeds, all rows of the batch are appended to the
  committed rows together and the count of the batch is returned; in every other case an
  exception is reported and the committed rows are unchanged.
\<close>

theorem C5_batch_atomic:
  "committed (snd (insert_rows drv n rows s)) =
     (if connect_ok drv n s \<and>
         all_inserts_ok drv n (s\<lparr>open_conns := open_conns s + 1\<rparr>) rows \<and>
         commit_ok drv n (s\<lparr>open_conns := open_conns s + 1\<rparr>) (map (make_row n) rows)
      then committed s @ map (make_row n) rows
      else committed s) \<and>
   fst (insert_rows drv n rows s) =
     (if connect_ok drv n s \<and>
         all_inserts_ok drv n (s\<lparr>open_conns := open_conns s + 1\<rparr>) rows \<and>
         commit_ok drv n (s\<lparr>open_conns := open_conns s + 1\<rparr>) (map (make_row n) rows)
      then Inr (length rows)
      else Inl DatabaseError)"
  by (simp add: insert_rows_result)

text \<open>
  Claim C5 on a batch of two rows: with a driver that never fails both rows are
  committed, with one whose inserts fail none is.
\<close>

theorem C5_batch_atomic_witness:
  "committed (snd (insert_rows ok_driver 1
       [(ustr ''I'', ustr ''Chapter I - General'', 7),
        (ustr ''II'', ustr ''Chapter II - [Reserved]'', 4)] empty_db)) =
     committed empty_db @
       map (make_row 1)
         [(ustr ''I'', ustr ''Chapter I - General'', 7),
          (ustr ''II'', ustr ''Chapter II - [Reserved]'', 4)] \<and>
   committed (snd (insert_rows failing_driver 1
       [(ustr ''I'', ustr ''Chapter I - General'', 7),
        (ustr ''II'', ustr ''Chapter II - [Reserved]'', 4)] empty_db)) = committed empty_db"
proof -
  let ?rows = "[(ustr ''I'', ustr ''Chapter I - General'', 7),
               (ustr ''II'', ustr ''Chapter II - [Reserved]'', 4)]"
  let ?s1 = "empty_db\<lparr>open_conns := open_conns empty_db + 1\<rparr>"
  have ok: "connect_ok ok_driver 1 empty_db \<and> all_inserts_ok ok_driver 1 ?s1 ?rows \<and>
      commit_ok ok_driver 1 ?s1 (map (make_row 1) ?rows)"
    by (simp add: ok_driver_def all_inserts_ok_def)
  have "\<not> execute_ok failing_driver 1 ?s1 (map (make_row 1) (take 0 ?rows))
      (make_row 1 (?rows ! 0))"
    by (simp add: failing_driver_def)
  then have bad: "\<not> all_inserts_ok failing_driver 1 ?s1 ?rows"
    unfolding all_inserts_ok_def by (metis length_greater_0_conv list.distinct(1))
  from ok have 1: "committed (snd (insert_rows ok_driver 1 ?rows empty_db)) =
      committed empty_db @ map (make_row 1) ?rows"
    using C5_batch_atomic [of ok_driver 1 ?rows empty_db] by (simp only: simp_thms if_True)
  from bad have 2: "committed (snd (insert_rows failing_driver 1 ?rows empty_db)) =
      committed empty_db"
    using C5_batch_atomic [of failing_driver 1 ?rows empty_db] by (simp only: simp_thms if_False)
  from 1 2 show ?thesis by (rule conjI)
qed

text \<open>
  Claim C5 as stated, that the batch is committed whenever every insert succeeds, fails
  when \<^verbatim>\<open>conn.commit()\<close> raises: every insert of the batch has succeeded and no row is
  committed.
\<close>

theorem C5_commit_failure_counterexample:
  "all_inserts_ok commit_failing_driver 1 (empty_db\<lparr>open_conns := open_conns empty_db + 1\<rparr>)
     [(ustr ''I'', ustr ''Chapter I - General'', 7),
      (ustr ''II'', ustr ''Chapter II - [Reserved]'', 4)] \<and>
   insert_rows commit_failing_driver 1
     [(ustr ''I'', ustr ''Chapter I - General'', 7),
      (ustr ''II'', ustr ''Chapter II - [Reserved]'', 4)] empty_db =
     (Inl DatabaseError, \<lparr>committed = [], open_conns = 1\<rparr>)"
proof -
  let ?rows = "[(ustr ''I'', ustr ''Chapter I - General'', 7),
               (ustr ''II'', ustr ''Chapter II - [Reserved]'', 4)]"
  have ok: "all_inserts_ok commit_failing_driver 1
      (empty_db\<lparr>open_conns := open_conns empty_db + 1\<rparr>) ?rows"
    by (simp add: all_inserts_ok_def commit_failing_driver_def)
  have "insert_rows commit_failing_driver 1 ?rows empty_db =
      (Inl DatabaseError, \<lparr>committed = [], open_conns = 1\<rparr>)"
    by (simp add: insert_rows_def commit_failing_driver_def empty_db_def)
  with ok show ?thesis by (rule conjI)
qed

subsection \<open>The run over the titles\<close>

















subsection \<open>Positions of the yielded chapters\<close>

lemma iter_paths_elements:
  "map snd (iter_paths p e) = iter e"
  "map snd (iter_paths_list p i cs) = concat (map iter cs)"
  by (induction p e and p i cs rule: iter_paths_iter_paths_list.induct) simp_all







lemma has_chapter_iter: "has_chapter e \<longleftrightarrow> (\<exists>x\<in>set (iter e). is_chapter x)"
proof (induction e)
  case (Element tg at tx ta cs)
  then have "list_ex has_chapter cs \<longleftrightarrow> (\<exists>c\<in>set cs. \<exists>x\<in>set (iter c). is_chapter x)"
    by (simp add: list_ex_iff)
  then show ?case by auto
qed

lemma has_chapter_paths:
  "has_chapter e \<longleftrightarrow> (\<exists>q x. (q, x) \<in> set (iter_paths p e) \<and> is_chapter x)"
proof -
  have "set (iter e) = snd ` set (iter_paths p e)"
    by (simp flip: iter_paths_elements(1) [of p e])
  then show ?thesis unfolding has_chapter_iter by force
qed














end
